theory Spec2Isabelle
  imports Main "HOL-Library.Sublist"
begin

section \<open>Python strings\<close>

text \<open>
  A Python \<^verbatim>\<open>str\<close> is a sequence of Unicode code points. A code point is a natural
  number here, so that \<^verbatim>\<open>'\u2003'\<close> is one character (8195) and \<^verbatim>\<open>line[4:]\<close>
  drops four characters whatever they are. \<open>asc\<close> writes an ASCII literal.
\<close>

type_synonym pstr = "nat list"

definition asc :: "string \<Rightarrow> pstr" where
  "asc s = map of_char s"

text \<open>\<^verbatim>\<open>delimiter.join(parts)\<close>\<close>

fun py_join :: "pstr \<Rightarrow> pstr list \<Rightarrow> pstr" where
  "py_join d [] = []"
| "py_join d [p] = p"
| "py_join d (p # q # ps) = p @ d @ py_join d (q # ps)"

text \<open>
  \<^verbatim>\<open>string.split(delimiter)\<close> for a non-empty delimiter: the occurrences of the
  delimiter are found from the left and do not overlap. \<open>split_from d acc s\<close> has read
  the characters \<open>rev acc\<close> of the current part and has \<open>s\<close> left to read.
  An empty delimiter raises \<^verbatim>\<open>ValueError\<close> in Python; that case is a branch of
  \<open>halved_by_delimiter\<close> below, and \<open>split_from\<close> is never called with it there.
\<close>

function split_from :: "pstr \<Rightarrow> pstr \<Rightarrow> pstr \<Rightarrow> pstr list" where
  "split_from d acc [] = [rev acc]"
| "split_from d acc (x # xs) =
     (if d \<noteq> [] \<and> prefix d (x # xs)
      then rev acc # split_from d [] (drop (length d) (x # xs))
      else split_from d (x # acc) xs)"
  by pat_completeness auto
termination
  by (relation "measure (\<lambda>(d, acc, s). length s)") (auto simp: neq_Nil_conv)

definition py_split :: "pstr \<Rightarrow> pstr \<Rightarrow> pstr list" where
  "py_split d s = split_from d [] s"

text \<open>\<^verbatim>\<open>str.startswith\<close>\<close>

definition startswith :: "pstr \<Rightarrow> pstr \<Rightarrow> bool" where
  "startswith s p = prefix p s"

section \<open>The QA pair parser\<close>

text \<open>
  \<^verbatim>\<open>parse_and_join_ans\<close>: the list comprehension keeps the lines that are not in
  \<^verbatim>\<open>['\n', '\t', '\u2003\n']\<close>; \<^verbatim>\<open>''.join\<close> concatenates them.
\<close>

definition parse_and_join_ans :: "pstr list \<Rightarrow> pstr" where
  "parse_and_join_ans ans =
     concat (filter (\<lambda>tok. tok \<notin> set [[10], [9], [8195, 10]]) ans)"

type_synonym qa_unit = "pstr list \<times> pstr"

text \<open>
  One line of the inner loop of \<^verbatim>\<open>split_into_qa_pairs\<close>, on the variables
  \<^verbatim>\<open>tmp\<close>, \<^verbatim>\<open>questions\<close> and \<^verbatim>\<open>ans\<close>.
\<close>

fun qa_line :: "qa_unit list \<times> pstr list \<times> pstr list \<Rightarrow> pstr
    \<Rightarrow> qa_unit list \<times> pstr list \<times> pstr list" where
  "qa_line (tmp, questions, ans) line =
     (if startswith line (asc ''<Q>'')
      then (if length ans > 0
            then (tmp @ [(questions, parse_and_join_ans ans)], [drop 4 line], [])
            else (tmp, questions @ [drop 4 line], ans))
      else (tmp, questions, ans @ [line]))"

fun qa_lines :: "qa_unit list \<times> pstr list \<times> pstr list \<Rightarrow> pstr list
    \<Rightarrow> qa_unit list \<times> pstr list \<times> pstr list" where
  "qa_lines st [] = st"
| "qa_lines st (line # text) = qa_lines (qa_line st line) text"

text \<open>
  One section of the outer loop. \<^verbatim>\<open>tmp\<close> is set to \<^verbatim>\<open>[]\<close> for the section;
  \<^verbatim>\<open>questions\<close> and \<^verbatim>\<open>ans\<close> are the function's variables, assigned once before
  the outer loop, and come in as they were left. The flush after the inner loop appends
  to \<^verbatim>\<open>tmp\<close> and assigns neither of them. The tuple it appends holds the list
  \<^verbatim>\<open>questions\<close> itself, which is not changed afterwards: \<^verbatim>\<open>ans\<close> is not empty
  then, so the next question line assigns a new list to \<^verbatim>\<open>questions\<close> before it
  appends to it. Lists as values are therefore enough.
\<close>

fun qa_section :: "(pstr \<times> qa_unit list) list \<times> pstr list \<times> pstr list
    \<Rightarrow> pstr \<times> pstr list
    \<Rightarrow> (pstr \<times> qa_unit list) list \<times> pstr list \<times> pstr list" where
  "qa_section (res, questions, ans) (section, text) =
     (case qa_lines ([], questions, ans) text of
        (tmp, questions', ans') \<Rightarrow>
          (res @ [(section,
                   if length ans' > 0
                   then tmp @ [(questions', parse_and_join_ans ans')]
                   else tmp)],
           questions', ans'))"

fun qa_sections :: "(pstr \<times> qa_unit list) list \<times> pstr list \<times> pstr list
    \<Rightarrow> (pstr \<times> pstr list) list
    \<Rightarrow> (pstr \<times> qa_unit list) list \<times> pstr list \<times> pstr list" where
  "qa_sections st [] = st"
| "qa_sections st (s # sections) = qa_sections (qa_section st s) sections"

definition split_into_qa_pairs :: "(pstr \<times> pstr list) list \<Rightarrow> (pstr \<times> qa_unit list) list" where
  "split_into_qa_pairs sections = fst (qa_sections ([], [], []) sections)"

section \<open>The section parser\<close>

text \<open>
  \<^verbatim>\<open>str.strip\<close>, \<^verbatim>\<open>str.isnumeric\<close>, \<^verbatim>\<open>int\<close> and \<^verbatim>\<open>str\<close> are Python's own.
  On ASCII their behaviour is fixed and written out here. Beyond ASCII it depends on
  the tables of the Unicode database, which are left as a parameter: every theorem
  below holds for all tables.
\<close>

record py_tables =
  u_space :: "nat \<Rightarrow> bool"
  u_numeric :: "nat \<Rightarrow> bool"
  u_decimal :: "nat \<Rightarrow> nat option"
  u_int_space :: "nat \<Rightarrow> bool"

datatype error = ValueError | AttributeError

text \<open>The characters \<^verbatim>\<open>str.strip()\<close> removes: those with \<^verbatim>\<open>str.isspace\<close>.\<close>

definition is_space :: "py_tables \<Rightarrow> nat \<Rightarrow> bool" where
  "is_space tb c = ((9 \<le> c \<and> c \<le> 13) \<or> (28 \<le> c \<and> c \<le> 32) \<or> (128 \<le> c \<and> u_space tb c))"

definition py_strip :: "py_tables \<Rightarrow> pstr \<Rightarrow> pstr" where
  "py_strip tb s = rev (dropWhile (is_space tb) (rev (dropWhile (is_space tb) s)))"

definition is_numeric :: "py_tables \<Rightarrow> nat \<Rightarrow> bool" where
  "is_numeric tb c = ((48 \<le> c \<and> c \<le> 57) \<or> (128 \<le> c \<and> u_numeric tb c))"

text \<open>\<^verbatim>\<open>str.isnumeric\<close>: at least one character, and every character numeric.\<close>

definition py_isnumeric :: "py_tables \<Rightarrow> pstr \<Rightarrow> bool" where
  "py_isnumeric tb s = (s \<noteq> [] \<and> list_all (is_numeric tb) s)"

text \<open>
  \<^verbatim>\<open>int(s)\<close> in base 10: whitespace around, an optional sign, then decimal digits,
  where one underscore may stand between two digits. \<open>None\<close> is \<^verbatim>\<open>ValueError\<close>.
  The whitespace \<^verbatim>\<open>int\<close> skips is tab to carriage return and the space; whether it
  also skips the separators 28 to 31 and which characters beyond ASCII it skips is
  left to the tables. (A limit on the number of digits, which recent interpreters
  can be configured with, is not modelled.)
\<close>

definition is_int_space :: "py_tables \<Rightarrow> nat \<Rightarrow> bool" where
  "is_int_space tb c =
     ((9 \<le> c \<and> c \<le> 13) \<or> c = 32 \<or> (((28 \<le> c \<and> c \<le> 31) \<or> 128 \<le> c) \<and> u_int_space tb c))"

definition decimal :: "py_tables \<Rightarrow> nat \<Rightarrow> nat option" where
  "decimal tb c =
     (if 48 \<le> c \<and> c \<le> 57 then Some (c - 48)
      else if 128 \<le> c then u_decimal tb c else None)"

fun digits_from :: "py_tables \<Rightarrow> nat \<Rightarrow> pstr \<Rightarrow> nat option" where
  "digits_from tb acc [] = Some acc"
| "digits_from tb acc [c] =
     (case decimal tb c of None \<Rightarrow> None | Some v \<Rightarrow> Some (10 * acc + v))"
| "digits_from tb acc (c # c' # cs) =
     (if c = 95
      then (case decimal tb c' of None \<Rightarrow> None
            | Some v \<Rightarrow> digits_from tb (10 * acc + v) cs)
      else (case decimal tb c of None \<Rightarrow> None
            | Some v \<Rightarrow> digits_from tb (10 * acc + v) (c' # cs)))"

definition digits_value :: "py_tables \<Rightarrow> pstr \<Rightarrow> nat option" where
  "digits_value tb s =
     (case s of [] \<Rightarrow> None
      | c # cs \<Rightarrow> (case decimal tb c of None \<Rightarrow> None | Some v \<Rightarrow> digits_from tb v cs))"

definition py_int :: "py_tables \<Rightarrow> pstr \<Rightarrow> int option" where
  "py_int tb s =
     (case rev (dropWhile (is_int_space tb) (rev (dropWhile (is_int_space tb) s))) of
        [] \<Rightarrow> None
      | c # cs \<Rightarrow>
          if c = 45 then map_option (\<lambda>n. - int n) (digits_value tb cs)
          else if c = 43 then map_option int (digits_value tb cs)
          else map_option int (digits_value tb (c # cs)))"

text \<open>\<^verbatim>\<open>str(n)\<close> of an integer: its decimal digits, after a minus sign when negative.\<close>

fun digits_of :: "nat \<Rightarrow> pstr" where
  "digits_of n = (if n < 10 then [48 + n] else digits_of (n div 10) @ [48 + n mod 10])"

declare digits_of.simps [simp del]

definition py_str :: "int \<Rightarrow> pstr" where
  "py_str i = (if i < 0 then 45 # digits_of (nat (- i)) else digits_of (nat i))"

text \<open>
  The variables of \<^verbatim>\<open>split_into_sections\<close>. \<^verbatim>\<open>tmp\<close> is \<^verbatim>\<open>None\<close> until the first
  marker and a list afterwards.
\<close>

record sec_state =
  res :: "(pstr \<times> pstr list) list"
  tmp :: "pstr list option"
  active :: bool
  match_tok :: int

definition sec_init :: sec_state where
  "sec_init = \<lparr>res = [], tmp = None, active = False, match_tok = 0\<rparr>"

text \<open>
  The condition \<^verbatim>\<open>line.strip().isnumeric() and int(line) == match_tok+1\<close>:
  \<^verbatim>\<open>int(line)\<close> is evaluated only when the left operand holds, and may raise.
\<close>

definition is_marker :: "py_tables \<Rightarrow> int \<Rightarrow> pstr \<Rightarrow> error + bool" where
  "is_marker tb mt line =
     (if py_isnumeric tb (py_strip tb line)
      then (case py_int tb line of None \<Rightarrow> Inl ValueError | Some v \<Rightarrow> Inr (v = mt + 1))
      else Inr False)"

text \<open>\<^verbatim>\<open>if tmp:\<close> holds for a list that is not empty, and not for \<^verbatim>\<open>None\<close>.\<close>

definition emit :: "sec_state \<Rightarrow> (pstr \<times> pstr list) list" where
  "emit st =
     (case tmp st of
        None \<Rightarrow> res st
      | Some t \<Rightarrow> if t \<noteq> [] then res st @ [(py_str (match_tok st), t)] else res st)"

definition sections_step :: "py_tables \<Rightarrow> sec_state \<Rightarrow> pstr \<Rightarrow> error + sec_state" where
  "sections_step tb st line =
     (case is_marker tb (match_tok st) line of
        Inl e \<Rightarrow> Inl e
      | Inr True \<Rightarrow>
          Inr \<lparr>res = emit st, tmp = Some [], active = True, match_tok = match_tok st + 1\<rparr>
      | Inr False \<Rightarrow>
          (if active st
           then (case tmp st of
                   None \<Rightarrow> Inl AttributeError
                 | Some t \<Rightarrow> Inr (st\<lparr>tmp := Some (t @ [line])\<rparr>))
           else Inr st))"

fun sections_loop :: "py_tables \<Rightarrow> sec_state \<Rightarrow> pstr list \<Rightarrow> error + sec_state" where
  "sections_loop tb st [] = Inr st"
| "sections_loop tb st (line # lines) =
     (case sections_step tb st line of
        Inl e \<Rightarrow> Inl e
      | Inr st' \<Rightarrow> sections_loop tb st' lines)"

text \<open>
  \<^verbatim>\<open>split_into_sections\<close> on the lines \<^verbatim>\<open>file.readlines()\<close> gives; opening and
  closing the file are outside the model. The function returns \<^verbatim>\<open>res\<close>.
\<close>

definition split_into_sections :: "py_tables \<Rightarrow> pstr list \<Rightarrow> error + (pstr \<times> pstr list) list" where
  "split_into_sections tb lines =
     (case sections_loop tb sec_init lines of Inl e \<Rightarrow> Inl e | Inr st \<Rightarrow> Inr (res st))"

section \<open>The tokenizer\<close>

text \<open>
  The tokenizer is \<^verbatim>\<open>tiktoken\<close>'s, which is not part of the repository. An
  encoding is taken as a parameter: what \<^verbatim>\<open>tiktoken.encoding_for_model\<close> returns,
  with its \<^verbatim>\<open>encode\<close> and \<^verbatim>\<open>decode\<close>. \<^verbatim>\<open>num_tokens\<close> is always called with
  its default model, so it counts with the encoding \<open>gpt\<close> of \<^verbatim>\<open>GPT_MODEL\<close>;
  \<^verbatim>\<open>truncated_string\<close> uses the encoding \<open>enc\<close> of the \<^verbatim>\<open>model\<close> argument it is
  given. Nothing is assumed of an encoding, except that \<open>encode\<close> and \<open>decode\<close>
  return on every argument: an encoding that raises on some string is outside the model.
\<close>

record 'tok encoding =
  encode :: "pstr \<Rightarrow> 'tok list"
  decode :: "'tok list \<Rightarrow> pstr"

definition num_tokens :: "'tok encoding \<Rightarrow> pstr \<Rightarrow> nat" where
  "num_tokens gpt text = length (encode gpt text)"


section \<open>The balanced splitter\<close>

text \<open>
  The loop of \<^verbatim>\<open>halved_by_delimiter\<close>, from index \<open>i\<close> with the current
  \<^verbatim>\<open>best_diff\<close>: its value is the \<^verbatim>\<open>i\<close> the loop leaves, the index of the
  \<^verbatim>\<open>break\<close>, or the last index when the loop runs out.
\<close>

function scan_halfway :: "'tok encoding \<Rightarrow> pstr \<Rightarrow> pstr list \<Rightarrow> int \<Rightarrow> nat \<Rightarrow> int \<Rightarrow> nat" where
  "scan_halfway gpt d chunks halfway i best_diff =
     (if length chunks \<le> i then length chunks - 1
      else let diff = \<bar>halfway - int (num_tokens gpt (py_join d (take (i + 1) chunks)))\<bar>
           in if diff \<ge> best_diff then i
              else scan_halfway gpt d chunks halfway (i + 1) diff)"
  by pat_completeness auto
termination
  by (relation "measure (\<lambda>(gpt, d, chunks, halfway, i, best_diff). length chunks - i)") auto

declare scan_halfway.simps [simp del]

text \<open>
  \<^verbatim>\<open>halved_by_delimiter\<close>. \<^verbatim>\<open>string.split(delimiter)\<close> raises \<^verbatim>\<open>ValueError\<close>
  on an empty delimiter.
\<close>

definition halved_by_delimiter :: "'tok encoding \<Rightarrow> pstr \<Rightarrow> pstr \<Rightarrow> error + pstr \<times> pstr" where
  "halved_by_delimiter gpt string d =
     (if d = [] then Inl ValueError
      else let chunks = py_split d string in
        if length chunks = 1 then Inr (string, [])
        else if length chunks = 2 then Inr (chunks ! 0, chunks ! 1)
        else let total_tokens = num_tokens gpt string;
                 halfway = int (total_tokens div 2);
                 i = scan_halfway gpt d chunks halfway 0 halfway
             in Inr (py_join d (take i chunks), py_join d (drop i chunks)))"

section \<open>Truncation\<close>

text \<open>
  \<^verbatim>\<open>xs[:n]\<close>: the first \<open>n\<close> elements, or all but the last \<open>-n\<close> for a negative
  \<open>n\<close>. \<^verbatim>\<open>truncated_string\<close> also prints a warning, which the model leaves out.
\<close>

definition slice_to :: "int \<Rightarrow> 'a list \<Rightarrow> 'a list" where
  "slice_to n xs = (if 0 \<le> n then take (nat n) xs else take (length xs - nat (- n)) xs)"

definition truncated_string :: "'tok encoding \<Rightarrow> pstr \<Rightarrow> int \<Rightarrow> pstr" where
  "truncated_string enc string max_tokens = decode enc (slice_to max_tokens (encode enc string))"

section \<open>The recursive chunker\<close>

text \<open>
  The loop over \<^verbatim>\<open>["\n\n", "\n", ". "]\<close> in \<^verbatim>\<open>split_strings_from_subsection\<close>
  goes to the next delimiter when a half is empty, and otherwise recurses on the two
  halves and returns. \<open>find_split\<close> is the search part of the loop: the halves of the
  first delimiter that gives two non-empty halves, if there is one.
\<close>

definition delimiters :: "pstr list" where
  "delimiters = [[10, 10], [10], [46, 32]]"

fun find_split :: "'tok encoding \<Rightarrow> pstr \<Rightarrow> pstr list \<Rightarrow> error + (pstr \<times> pstr) option" where
  "find_split gpt text [] = Inr None"
| "find_split gpt text (d # ds) =
     (case halved_by_delimiter gpt text d of
        Inl e \<Rightarrow> Inl e
      | Inr (left, right) \<Rightarrow>
          if left = [] \<or> right = [] then find_split gpt text ds
          else Inr (Some (left, right)))"

subsection \<open>Splitting and joining\<close>

lemma split_from_nonempty: "split_from d acc s \<noteq> []"
  by (induction d acc s rule: split_from.induct) auto

lemma py_join_Cons: "ps \<noteq> [] \<Longrightarrow> py_join d (p # ps) = p @ d @ py_join d ps"
  by (cases ps) auto

lemma py_join_append:
  "xs \<noteq> [] \<Longrightarrow> ys \<noteq> [] \<Longrightarrow> py_join d (xs @ ys) = py_join d xs @ d @ py_join d ys"
proof (induction xs)
  case Nil
  then show ?case by simp
next
  case (Cons x xs)
  show ?case
  proof (cases "xs = []")
    case True
    with Cons.prems show ?thesis by (simp add: py_join_Cons)
  next
    case False
    with Cons show ?thesis by (simp add: py_join_Cons)
  qed
qed

lemma join_split_from: "d \<noteq> [] \<Longrightarrow> py_join d (split_from d acc s) = rev acc @ s"
proof (induction d acc s rule: split_from.induct)
  case (1 d acc)
  then show ?case by simp
next
  case (2 d acc x xs)
  show ?case
  proof (cases "prefix d (x # xs)")
    case True
    then have "d @ drop (length d) (x # xs) = x # xs"
      by (metis append_eq_conv_conj prefixE)
    with 2 True show ?thesis
      by (simp add: py_join_Cons split_from_nonempty)
  next
    case False
    with 2 show ?thesis by simp
  qed
qed

lemma join_split: "d \<noteq> [] \<Longrightarrow> py_join d (py_split d s) = s"
  by (simp add: py_split_def join_split_from)

lemma split_from_single:
  "d \<noteq> [] \<Longrightarrow> length (split_from d acc s) = 1 \<longleftrightarrow> \<not> sublist d s"
proof (induction d acc s rule: split_from.induct)
  case (1 d acc)
  then show ?case by simp
next
  case (2 d acc x xs)
  show ?case
  proof (cases "prefix d (x # xs)")
    case True
    then have "sublist d (x # xs)" by (rule prefix_imp_sublist)
    with 2 True show ?thesis by (simp add: split_from_nonempty)
  next
    case False
    with 2 show ?thesis by (simp add: sublist_Cons_right)
  qed
qed

lemma split_single: "d \<noteq> [] \<Longrightarrow> length (py_split d s) = 1 \<longleftrightarrow> \<not> sublist d s"
  using split_from_single [of d "[]" s] by (simp add: py_split_def)

lemma py_split_nonempty: "py_split d s \<noteq> []"
  by (simp add: py_split_def split_from_nonempty)

subsection \<open>Where the scan stops\<close>

text \<open>
  The scan in the words of the specification: \<open>diff_at j\<close> is the distance between
  \<^verbatim>\<open>halfway\<close> and the token count of the prefix of the parts up to index \<open>j\<close>
  included, \<open>best_so_far j\<close> is the best difference before index \<open>j\<close>, and the scan
  stops at the first index whose difference is not below the best so far.
\<close>

definition diff_at :: "'tok encoding \<Rightarrow> pstr \<Rightarrow> pstr list \<Rightarrow> int \<Rightarrow> nat \<Rightarrow> int" where
  "diff_at gpt d chunks halfway j =
     \<bar>halfway - int (num_tokens gpt (py_join d (take (j + 1) chunks)))\<bar>"

fun best_so_far :: "'tok encoding \<Rightarrow> pstr \<Rightarrow> pstr list \<Rightarrow> int \<Rightarrow> nat \<Rightarrow> int" where
  "best_so_far gpt d chunks halfway 0 = halfway"
| "best_so_far gpt d chunks halfway (Suc j) =
     min (best_so_far gpt d chunks halfway j) (diff_at gpt d chunks halfway j)"

definition first_stop :: "'tok encoding \<Rightarrow> pstr \<Rightarrow> pstr list \<Rightarrow> int \<Rightarrow> nat \<Rightarrow> bool" where
  "first_stop gpt d chunks halfway i =
     (i < length chunks
      \<and> best_so_far gpt d chunks halfway i \<le> diff_at gpt d chunks halfway i
      \<and> list_all (\<lambda>j. diff_at gpt d chunks halfway j < best_so_far gpt d chunks halfway j) [0..<i])"

lemma best_so_far_le: "best_so_far gpt d chunks halfway j \<le> halfway"
  by (induction j) auto

lemma scan_halfway_first_stop:
  assumes "i < length chunks"
    and "best = best_so_far gpt d chunks halfway i"
    and "list_all (\<lambda>j. diff_at gpt d chunks halfway j < best_so_far gpt d chunks halfway j) [0..<i]"
    and "halfway \<le> diff_at gpt d chunks halfway (length chunks - 1)"
  shows "first_stop gpt d chunks halfway (scan_halfway gpt d chunks halfway i best)"
  using assms
proof (induction gpt d chunks halfway i best rule: scan_halfway.induct)
  case (1 gpt d chunks halfway i best)
  let ?diff = "diff_at gpt d chunks halfway i"
  show ?case
  proof (cases "best \<le> ?diff")
    case True
    then have "scan_halfway gpt d chunks halfway i best = i"
      using "1.prems"(1) by (subst scan_halfway.simps) (simp add: diff_at_def)
    with True "1.prems" show ?thesis by (simp add: first_stop_def)
  next
    case False
    then have lt: "?diff < best" by simp
    have "i \<noteq> length chunks - 1"
    proof
      assume "i = length chunks - 1"
      with "1.prems"(4) have "halfway \<le> ?diff" by simp
      moreover have "best \<le> halfway" using "1.prems"(2) by (simp add: best_so_far_le)
      ultimately show False using lt by simp
    qed
    with "1.prems"(1) have next_lt: "i + 1 < length chunks" by simp
    have step: "scan_halfway gpt d chunks halfway i best
                  = scan_halfway gpt d chunks halfway (i + 1) ?diff"
      using "1.prems"(1) lt by (subst scan_halfway.simps) (simp add: diff_at_def Let_def)
    have best': "?diff = best_so_far gpt d chunks halfway (i + 1)"
      using lt "1.prems"(2) by simp
    have all': "list_all (\<lambda>j. diff_at gpt d chunks halfway j < best_so_far gpt d chunks halfway j) [0..<i + 1]"
      using "1.prems"(2,3) lt by simp
    have "first_stop gpt d chunks halfway (scan_halfway gpt d chunks halfway (i + 1) ?diff)"
      using "1.prems"(1) lt next_lt best' all' "1.prems"(4)
      by (intro "1.IH"[where x = ?diff]) (simp_all add: diff_at_def)
    with step show ?thesis by simp
  qed
qed

lemma last_prefix_diff:
  assumes "d \<noteq> []"
  shows "int (num_tokens gpt s div 2)
           \<le> diff_at gpt d (py_split d s) (int (num_tokens gpt s div 2)) (length (py_split d s) - 1)"
proof -
  have "take (length (py_split d s) - 1 + 1) (py_split d s) = py_split d s"
    using py_split_nonempty [of d s] by (cases "py_split d s") auto
  then show ?thesis
    using assms by (simp add: diff_at_def join_split)
qed

lemma scan_from_start:
  assumes "d \<noteq> []"
  shows "first_stop gpt d (py_split d s) (int (num_tokens gpt s div 2))
           (scan_halfway gpt d (py_split d s) (int (num_tokens gpt s div 2)) 0
              (int (num_tokens gpt s div 2)))"
proof -
  have "0 < length (py_split d s)" using py_split_nonempty [of d s] by simp
  then show ?thesis
    using last_prefix_diff [OF assms] by (intro scan_halfway_first_stop) simp_all
qed

lemma first_stop_unique:
  assumes "first_stop gpt d chunks halfway i" and "first_stop gpt d chunks halfway k"
  shows "i = k"
proof -
  have "\<not> a < b" if "first_stop gpt d chunks halfway a" "first_stop gpt d chunks halfway b" for a b
  proof
    assume "a < b"
    then have "a \<in> set [0..<b]" by simp
    with that(2) have "diff_at gpt d chunks halfway a < best_so_far gpt d chunks halfway a"
      unfolding first_stop_def list_all_iff by blast
    with that(1) show False by (simp add: first_stop_def)
  qed
  from this [OF assms] this [OF assms(2,1)] show ?thesis by simp
qed

lemma best_so_far_pred:
  "0 < j \<Longrightarrow> best_so_far gpt d chunks halfway j
     = min (best_so_far gpt d chunks halfway (j - 1)) (diff_at gpt d chunks halfway (j - 1))"
  by (cases j) simp_all

lemma halved_cases:
  assumes "d \<noteq> []" and "halved_by_delimiter gpt s d = Inr (l, r)"
  shows "(l = s \<and> r = [] \<and> \<not> sublist d s)
       \<or> (l = [] \<and> r = s \<and> 2 < length (py_split d s)
            \<and> first_stop gpt d (py_split d s) (int (num_tokens gpt s div 2)) 0)
       \<or> (l @ d @ r = s \<and> sublist d s
            \<and> \<not> (2 < length (py_split d s)
                  \<and> first_stop gpt d (py_split d s) (int (num_tokens gpt s div 2)) 0))"
proof -
  let ?chunks = "py_split d s"
  let ?h = "int (num_tokens gpt s div 2)"
  consider "length ?chunks = 1" | "length ?chunks = 2" | "2 < length ?chunks"
  proof -
    have "length ?chunks \<noteq> 0" using py_split_nonempty [of d s] by simp
    then show ?thesis using that by linarith
  qed
  then show ?thesis
  proof cases
    case 1
    with assms show ?thesis
      using split_single [of d s] by (simp add: halved_by_delimiter_def)
  next
    case 2
    then obtain a b where ab: "?chunks = [a, b]"
      by (cases ?chunks; cases "tl ?chunks") auto
    have "py_join d ?chunks = s" using assms(1) by (rule join_split)
    with ab have "a @ d @ b = s" by simp
    moreover have "sublist d s" using split_single [of d s] assms(1) 2 by simp
    ultimately show ?thesis using assms 2 ab by (simp add: halved_by_delimiter_def)
  next
    case 3
    let ?i = "scan_halfway gpt d ?chunks ?h 0 ?h"
    have fs: "first_stop gpt d ?chunks ?h ?i" using assms(1) by (rule scan_from_start)
    have lr: "l = py_join d (take ?i ?chunks)" "r = py_join d (drop ?i ?chunks)"
      using assms 3 by (simp_all add: halved_by_delimiter_def Let_def)
    show ?thesis
    proof (cases "?i = 0")
      case True
      with lr fs 3 assms(1) show ?thesis by (simp add: join_split)
    next
      case False
      have "?i < length ?chunks" using fs by (simp add: first_stop_def)
      with False have "take ?i ?chunks \<noteq> []" "drop ?i ?chunks \<noteq> []" by auto
      then have "py_join d (take ?i ?chunks @ drop ?i ?chunks) = l @ d @ r"
        unfolding lr by (rule py_join_append)
      then have "l @ d @ r = s" using assms(1) by (simp add: join_split)
      moreover have "\<not> first_stop gpt d ?chunks ?h 0"
        using first_stop_unique [OF fs] False by auto
      moreover have "sublist d s" using split_single [of d s] assms(1) 3 by auto
      ultimately show ?thesis by simp
    qed
  qed
qed

lemma halved_total: "d \<noteq> [] \<Longrightarrow> \<exists>l r. halved_by_delimiter gpt s d = Inr (l, r)"
  by (simp add: halved_by_delimiter_def Let_def)

lemma find_split_Some:
  "find_split gpt text ds = Inr (Some (l, r)) \<Longrightarrow>
   \<exists>d\<in>set ds. d \<noteq> [] \<and> l @ d @ r = text \<and> l \<noteq> [] \<and> r \<noteq> []"
proof (induction ds)
  case Nil
  then show ?case by simp
next
  case (Cons d ds)
  show ?case
  proof (cases "halved_by_delimiter gpt text d")
    case (Inl e)
    with Cons.prems show ?thesis by simp
  next
    case (Inr p)
    obtain a b where p: "p = (a, b)" by (cases p)
    have d: "d \<noteq> []" using Inr by (auto simp: halved_by_delimiter_def)
    show ?thesis
    proof (cases "a = [] \<or> b = []")
      case True
      with Cons Inr p show ?thesis by auto
    next
      case False
      with Cons.prems Inr p have "a = l" "b = r" by auto
      with halved_cases [OF d, of gpt "text" a b] Inr p False d show ?thesis by auto
    qed
  qed
qed

lemma find_split_delimiters: "\<exists>r. find_split gpt text delimiters = Inr r"
proof -
  have "\<And>ds. \<forall>d\<in>set ds. d \<noteq> [] \<Longrightarrow> \<exists>r. find_split gpt text ds = Inr r"
  proof -
    fix ds :: "pstr list"
    assume "\<forall>d\<in>set ds. d \<noteq> []"
    then show "\<exists>r. find_split gpt text ds = Inr r"
    proof (induction ds)
      case Nil
      then show ?case by simp
    next
      case (Cons d ds)
      then obtain l r where "halved_by_delimiter gpt text d = Inr (l, r)"
        using halved_total [of d gpt "text"] by auto
      with Cons show ?case by auto
    qed
  qed
  moreover have "\<forall>d\<in>set delimiters. d \<noteq> []" by (simp add: delimiters_def)
  ultimately show ?thesis by blast
qed

subsection \<open>The recursion\<close>

text \<open>
  \<^verbatim>\<open>split_strings_from_subsection\<close>. Both halves found by \<open>find_split\<close> are shorter
  than the text, which is why the recursion ends, whatever \<^verbatim>\<open>max_recursion\<close> is.
\<close>

function split_strings_from_subsection ::
    "'tok encoding \<Rightarrow> 'tok encoding \<Rightarrow> pstr list \<times> pstr \<Rightarrow> int \<Rightarrow> int \<Rightarrow> error + pstr list" where
  "split_strings_from_subsection gpt enc (titles, text) max_tokens max_recursion =
     (let string = py_join [10, 10] (titles @ [text]) in
      if int (num_tokens gpt string) \<le> max_tokens then Inr [string]
      else if max_recursion = 0 then Inr [truncated_string enc string max_tokens]
      else (case find_split gpt text delimiters of
              Inl e \<Rightarrow> Inl e
            | Inr None \<Rightarrow> Inr [truncated_string enc string max_tokens]
            | Inr (Some (left, right)) \<Rightarrow>
                (case split_strings_from_subsection gpt enc (titles, left) max_tokens
                        (max_recursion - 1) of
                   Inl e \<Rightarrow> Inl e
                 | Inr left_strings \<Rightarrow>
                     (case split_strings_from_subsection gpt enc (titles, right) max_tokens
                             (max_recursion - 1) of
                        Inl e \<Rightarrow> Inl e
                      | Inr right_strings \<Rightarrow> Inr (left_strings @ right_strings)))))"
  by pat_completeness auto
termination
proof (relation "measure (\<lambda>(gpt, enc, (titles, text), max_tokens, max_recursion). length text)")
  show "wf (measure (\<lambda>(gpt, enc, (titles, text), max_tokens, max_recursion). length text))"
    by simp
qed (auto dest!: find_split_Some)

declare split_strings_from_subsection.simps [simp del]

text \<open>
  Whether a call, or a call below it, returns a truncated string: the text does not
  fit, and the recursion budget is used up or no delimiter splits the text.
\<close>

function truncation_reached :: "'tok encoding \<Rightarrow> pstr list \<times> pstr \<Rightarrow> int \<Rightarrow> int \<Rightarrow> bool" where
  "truncation_reached gpt (titles, text) max_tokens max_recursion =
     (if int (num_tokens gpt (py_join [10, 10] (titles @ [text]))) \<le> max_tokens then False
      else if max_recursion = 0 then True
      else (case find_split gpt text delimiters of
              Inl e \<Rightarrow> False
            | Inr None \<Rightarrow> True
            | Inr (Some (left, right)) \<Rightarrow>
                truncation_reached gpt (titles, left) max_tokens (max_recursion - 1)
                \<or> truncation_reached gpt (titles, right) max_tokens (max_recursion - 1)))"
  by pat_completeness auto
termination
proof (relation "measure (\<lambda>(gpt, (titles, text), max_tokens, max_recursion). length text)")
  show "wf (measure (\<lambda>(gpt, (titles, text), max_tokens, max_recursion). length text))"
    by simp
qed (auto dest!: find_split_Some)

declare truncation_reached.simps [simp del]

lemma split_strings_fits:
  "int (num_tokens gpt (py_join [10, 10] (titles @ [text]))) \<le> max_tokens \<Longrightarrow>
   split_strings_from_subsection gpt enc (titles, text) max_tokens max_recursion
     = Inr [py_join [10, 10] (titles @ [text])]"
  by (subst split_strings_from_subsection.simps) (simp add: Let_def)

lemma split_strings_floor:
  "\<not> int (num_tokens gpt (py_join [10, 10] (titles @ [text]))) \<le> max_tokens \<Longrightarrow>
   split_strings_from_subsection gpt enc (titles, text) max_tokens 0
     = Inr [truncated_string enc (py_join [10, 10] (titles @ [text])) max_tokens]"
  by (subst split_strings_from_subsection.simps) (simp add: Let_def)

lemma split_strings_no_split:
  "\<not> int (num_tokens gpt (py_join [10, 10] (titles @ [text]))) \<le> max_tokens \<Longrightarrow>
   find_split gpt text delimiters = Inr None \<Longrightarrow>
   split_strings_from_subsection gpt enc (titles, text) max_tokens max_recursion
     = Inr [truncated_string enc (py_join [10, 10] (titles @ [text])) max_tokens]"
  by (subst split_strings_from_subsection.simps) (simp add: Let_def)

lemma split_strings_rec:
  "\<not> int (num_tokens gpt (py_join [10, 10] (titles @ [text]))) \<le> max_tokens \<Longrightarrow>
   max_recursion \<noteq> 0 \<Longrightarrow>
   find_split gpt text delimiters = Inr (Some (left, right)) \<Longrightarrow>
   split_strings_from_subsection gpt enc (titles, text) max_tokens max_recursion
     = (case split_strings_from_subsection gpt enc (titles, left) max_tokens (max_recursion - 1) of
          Inl e \<Rightarrow> Inl e
        | Inr left_strings \<Rightarrow>
            (case split_strings_from_subsection gpt enc (titles, right) max_tokens
                    (max_recursion - 1) of
               Inl e \<Rightarrow> Inl e
             | Inr right_strings \<Rightarrow> Inr (left_strings @ right_strings)))"
  by (subst split_strings_from_subsection.simps) (simp add: Let_def)

text \<open>The four ways a call can go, as a case rule.\<close>

lemma split_strings_cases [case_names fits floor no_split rec]:
  assumes "int (num_tokens gpt (py_join [10, 10] (titles @ [txt]))) \<le> max_tokens \<Longrightarrow> P"
    and "\<not> int (num_tokens gpt (py_join [10, 10] (titles @ [txt]))) \<le> max_tokens \<Longrightarrow>
         max_recursion = 0 \<Longrightarrow> P"
    and "\<not> int (num_tokens gpt (py_join [10, 10] (titles @ [txt]))) \<le> max_tokens \<Longrightarrow>
         max_recursion \<noteq> 0 \<Longrightarrow> find_split gpt txt delimiters = Inr None \<Longrightarrow> P"
    and "\<And>left right d.
         \<not> int (num_tokens gpt (py_join [10, 10] (titles @ [txt]))) \<le> max_tokens \<Longrightarrow>
         max_recursion \<noteq> 0 \<Longrightarrow> find_split gpt txt delimiters = Inr (Some (left, right)) \<Longrightarrow>
         d \<in> set delimiters \<Longrightarrow> left @ d @ right = txt \<Longrightarrow> left \<noteq> [] \<Longrightarrow> right \<noteq> [] \<Longrightarrow>
         d \<noteq> [] \<Longrightarrow> P"
  shows P
proof (cases "int (num_tokens gpt (py_join [10, 10] (titles @ [txt]))) \<le> max_tokens")
  case True
  then show ?thesis by (rule assms(1))
next
  case nofit: False
  show ?thesis
  proof (cases "max_recursion = 0")
    case True
    with nofit show ?thesis by (rule assms(2))
  next
    case False
    obtain r where r: "find_split gpt txt delimiters = Inr r"
      using find_split_delimiters by blast
    show ?thesis
    proof (cases r)
      case None
      with nofit False r show ?thesis by (intro assms(3)) simp_all
    next
      case (Some p)
      obtain left right where p: "p = (left, right)" by (cases p)
      with Some r have fs: "find_split gpt txt delimiters = Inr (Some (left, right))" by simp
      from find_split_Some [OF fs] obtain d where
        "d \<in> set delimiters" "left @ d @ right = txt" "left \<noteq> []" "right \<noteq> []" "d \<noteq> []"
        by blast
      with nofit False fs show ?thesis by (intro assms(4) [of left right d])
    qed
  qed
qed

lemma split_strings_total:
  "\<exists>strings. split_strings_from_subsection gpt enc (titles, text) max_tokens max_recursion
       = Inr strings \<and> strings \<noteq> []
     \<and> (0 \<le> max_recursion \<longrightarrow> length strings \<le> 2 ^ nat max_recursion)"
proof (induction "length text" arbitrary: "text" max_recursion rule: less_induct)
  case less
  show ?case
  proof (cases rule: split_strings_cases [of gpt titles "text" max_tokens _ max_recursion])
    case fits
    then show ?thesis by (simp add: split_strings_fits)
  next
    case floor
    then show ?thesis by (simp add: split_strings_floor)
  next
    case no_split
    then show ?thesis by (simp add: split_strings_no_split)
  next
    case (rec left right d)
    then have len: "length left < length text" "length right < length text" by auto
    from less [OF len(1), of "max_recursion - 1"] obtain ls where
      ls: "split_strings_from_subsection gpt enc (titles, left) max_tokens (max_recursion - 1) = Inr ls"
        "ls \<noteq> []" "0 \<le> max_recursion - 1 \<longrightarrow> length ls \<le> 2 ^ nat (max_recursion - 1)"
      by blast
    from less [OF len(2), of "max_recursion - 1"] obtain rs where
      rs: "split_strings_from_subsection gpt enc (titles, right) max_tokens (max_recursion - 1) = Inr rs"
        "rs \<noteq> []" "0 \<le> max_recursion - 1 \<longrightarrow> length rs \<le> 2 ^ nat (max_recursion - 1)"
      by blast
    have eq: "split_strings_from_subsection gpt enc (titles, text) max_tokens max_recursion
                = Inr (ls @ rs)"
      using rec(1-3) ls(1) rs(1) by (simp add: split_strings_rec)
    have "length (ls @ rs) \<le> 2 ^ nat max_recursion" if "0 \<le> max_recursion"
    proof -
      from that rec(2) have pos: "0 \<le> max_recursion - 1" by simp
      then have "nat max_recursion = Suc (nat (max_recursion - 1))" by simp
      then have "(2::nat) ^ nat max_recursion = 2 * 2 ^ nat (max_recursion - 1)" by simp
      with ls(3) rs(3) pos show ?thesis by simp
    qed
    with eq ls(2) show ?thesis by simp
  qed
qed

section \<open>Chunks and the body they come from\<close>

text \<open>
  What \<^verbatim>\<open>"\n\n".join(titles + [text])\<close> puts in front of the text: the titles,
  each followed by two newlines.
\<close>

definition title_prefix :: "pstr list \<Rightarrow> pstr" where
  "title_prefix titles = (if titles = [] then [] else py_join [10, 10] titles @ [10, 10])"

text \<open>
  The pieces in order, with the separators put back between them, in order.
\<close>

fun weave :: "pstr list \<Rightarrow> pstr list \<Rightarrow> pstr" where
  "weave [] seps = []"
| "weave (p # ps) [] = p @ concat ps"
| "weave (p # ps) (d # seps) = p @ d @ weave ps seps"

text \<open>
  Tables with nothing beyond ASCII, for the closed examples. Every example below uses
  ASCII lines only, on which the tables are not consulted.
\<close>

definition ascii_tables :: py_tables where
  "ascii_tables = \<lparr>u_space = (\<lambda>c. False), u_numeric = (\<lambda>c. False),
     u_decimal = (\<lambda>c. None), u_int_space = (\<lambda>c. False)\<rparr>"

text \<open>
  The invariant of the loop of \<^verbatim>\<open>split_into_sections\<close>: the ids emitted so far
  are the decimal strings of the integers \<open>ks\<close>.
\<close>

definition sec_inv :: "sec_state \<Rightarrow> int list \<Rightarrow> bool" where
  "sec_inv st ks =
     (map fst (res st) = map py_str ks \<and> sorted_wrt (<) ks
      \<and> (\<forall>k\<in>set ks. 1 \<le> k \<and> k < match_tok st)
      \<and> 0 \<le> match_tok st \<and> (tmp st \<noteq> None \<longrightarrow> 1 \<le> match_tok st)
      \<and> (active st \<longleftrightarrow> tmp st \<noteq> None))"

section \<open>Evaluation\<close>

lemmas sections_eval =
  split_into_sections_def sec_init_def sections_step_def is_marker_def py_isnumeric_def
  py_strip_def is_space_def is_numeric_def py_int_def is_int_space_def digits_value_def
  decimal_def emit_def py_str_def digits_of.simps asc_def

lemmas qa_eval = split_into_qa_pairs_def startswith_def parse_and_join_ans_def asc_def

text \<open>A line of a text file: the characters and the newline that ends it.\<close>

definition ln :: "string \<Rightarrow> pstr" where
  "ln s = asc s @ [10]"

text \<open>An encoding for the closed examples: every character is one token.\<close>

definition char_encoding :: "nat encoding" where
  "char_encoding = \<lparr>encode = (\<lambda>s. s), decode = (\<lambda>ts. ts)\<rparr>"

lemmas chunk_eval =
  halved_by_delimiter_def py_split_def num_tokens_def scan_halfway.simps char_encoding_def
  first_stop_def diff_at_def ln_def asc_def Let_def

definition abcd :: pstr where
  "abcd = ln ''a'' @ ln ''b'' @ ln ''c'' @ asc ''d''"

definition nab :: pstr where
  "nab = [10] @ ln ''a'' @ asc ''b''"

definition titled :: "pstr list" where
  "titled = [asc ''T'']"


section \<open>The answer filter\<close>

text \<open>
  C7. \<^verbatim>\<open>parse_and_join_ans\<close> goes through the answer lines in order: a line equal to
  a newline, to a tab or to an em-space followed by a newline is dropped, any other line
  is put in front of what the remaining lines give, with nothing in between. On
  \<^verbatim>\<open>["Paris", "\n", "is", "\t", "the capital"]\<close> it returns
  \<^verbatim>\<open>"Parisisthe capital"\<close>.
\<close>

theorem parse_and_join_ans_drops_and_concatenates:
  "parse_and_join_ans [] = []
   \<and> parse_and_join_ans (l # ls) =
       (if l = [10] \<or> l = [9] \<or> l = [8195, 10] then parse_and_join_ans ls
        else l @ parse_and_join_ans ls)
   \<and> parse_and_join_ans [asc ''Paris'', [10], asc ''is'', [9], asc ''the capital'']
       = asc ''Parisisthe capital''"
  by (simp add: parse_and_join_ans_def asc_def)


section \<open>The section parser: what is emitted\<close>

lemma sections_loop_append:
  "sections_loop tb st (xs @ ys) =
     (case sections_loop tb st xs of Inl e \<Rightarrow> Inl e | Inr st' \<Rightarrow> sections_loop tb st' ys)"
  by (induction xs arbitrary: st) (auto split: sum.splits)

lemma sections_loop_body:
  "tmp st = Some t \<Longrightarrow> active st \<Longrightarrow>
   \<forall>l\<in>set body. is_marker tb (match_tok st) l = Inr False \<Longrightarrow>
   sections_loop tb st body = Inr (st\<lparr>tmp := Some (t @ body)\<rparr>)"
proof (induction body arbitrary: st t)
  case Nil
  then show ?case by simp
next
  case (Cons l body)
  have step: "sections_step tb st l = Inr (st\<lparr>tmp := Some (t @ [l])\<rparr>)"
    using Cons.prems by (simp add: sections_step_def)
  have "sections_loop tb (st\<lparr>tmp := Some (t @ [l])\<rparr>) body
          = Inr (st\<lparr>tmp := Some (t @ [l])\<rparr>\<lparr>tmp := Some ((t @ [l]) @ body)\<rparr>)"
    using Cons.prems by (intro Cons.IH) simp_all
  with step show ?case by simp
qed

text \<open>
  C3. Let the lines \<open>pre\<close> be read without error, let the next line \<open>m\<close> be accepted
  as a marker, and let no line of \<open>body\<close> be accepted as the marker after it. Then the
  result on \<open>pre @ m # body\<close> is what had been emitted when \<open>m\<close> was accepted, and is
  the result on \<open>pre @ [m]\<close>: the lines of \<open>body\<close> are in no emitted section, since
  nothing is emitted after the loop.
\<close>

theorem trailing_lines_not_emitted:
  assumes "sections_loop tb sec_init pre = Inr st"
    and "is_marker tb (match_tok st) m = Inr True"
    and "\<forall>l\<in>set body. is_marker tb (match_tok st + 1) l = Inr False"
  shows "split_into_sections tb (pre @ m # body) = Inr (emit st)
       \<and> split_into_sections tb (pre @ m # body) = split_into_sections tb (pre @ [m])"
proof -
  let ?st' = "\<lparr>res = emit st, tmp = Some [], active = True, match_tok = match_tok st + 1\<rparr>"
  have step: "sections_step tb st m = Inr ?st'"
    using assms(2) by (simp add: sections_step_def)
  have body: "sections_loop tb ?st' body = Inr (?st'\<lparr>tmp := Some ([] @ body)\<rparr>)"
    using assms(3) by (intro sections_loop_body) simp_all
  have "sections_loop tb sec_init (pre @ m # body) = Inr (?st'\<lparr>tmp := Some ([] @ body)\<rparr>)"
    using assms(1) step body by (simp add: sections_loop_append)
  moreover have "sections_loop tb sec_init (pre @ [m]) = Inr ?st'"
    using assms(1) step by (simp add: sections_loop_append)
  ultimately show ?thesis by (simp add: split_into_sections_def)
qed

theorem trailing_lines_not_emitted_witness:
  "sections_loop ascii_tables sec_init [ln ''1'', ln ''a'']
     = Inr \<lparr>res = [], tmp = Some [ln ''a''], active = True, match_tok = 1\<rparr>
   \<and> is_marker ascii_tables 1 (ln ''2'') = Inr True
   \<and> is_marker ascii_tables 2 (ln ''b'') = Inr False
   \<and> is_marker ascii_tables 2 (ln ''7'') = Inr False
   \<and> split_into_sections ascii_tables [ln ''1'', ln ''a'', ln ''2'', ln ''b'', ln ''7'']
       = Inr [(asc ''1'', [ln ''a''])]"
proof -
  let ?st = "\<lparr>res = [], tmp = Some [ln ''a''], active = True, match_tok = 1\<rparr>"
  have 1: "sections_loop ascii_tables sec_init [ln ''1'', ln ''a''] = Inr ?st"
    by (simp add: ln_def sections_eval)
  have 2: "is_marker ascii_tables (match_tok ?st) (ln ''2'') = Inr True"
    by (simp add: ln_def sections_eval)
  have 3: "\<forall>l\<in>set [ln ''b'', ln ''7'']. is_marker ascii_tables (match_tok ?st + 1) l = Inr False"
    by (simp add: ln_def sections_eval)
  have 4: "emit ?st = [(asc ''1'', [ln ''a''])]"
    by (simp add: ln_def sections_eval)
  from trailing_lines_not_emitted [OF 1 2 3] 1 2 3 4 show ?thesis by simp
qed

lemma digits_of_value: "foldl (\<lambda>a c. 10 * a + (c - 48)) 0 (digits_of n) = n"
proof (induction n rule: digits_of.induct)
  case (1 n)
  show ?case
  proof (cases "n < 10")
    case True
    then show ?thesis by (simp add: digits_of.simps)
  next
    case False
    with 1 show ?thesis by (subst digits_of.simps) simp
  qed
qed

lemma digits_of_inj: "digits_of m = digits_of n \<Longrightarrow> m = n"
  by (metis digits_of_value)

lemma py_str_inj_nonneg: "0 \<le> i \<Longrightarrow> 0 \<le> j \<Longrightarrow> py_str i = py_str j \<Longrightarrow> i = j"
  by (auto simp: py_str_def dest!: digits_of_inj)

lemma sec_inv_init: "sec_inv sec_init []"
  by (simp add: sec_inv_def sec_init_def)

lemma sec_inv_step:
  assumes "sec_inv st ks" and "sections_step tb st line = Inr st'"
  shows "\<exists>ks'. sec_inv st' ks'"
proof (cases "is_marker tb (match_tok st) line")
  case (Inl e)
  with assms(2) show ?thesis by (simp add: sections_step_def)
next
  case (Inr b)
  show ?thesis
  proof (cases b)
    case False
    with Inr assms show ?thesis
      by (auto simp: sections_step_def sec_inv_def split: if_splits option.splits)
  next
    case True
    with Inr assms(2) have st': "st' = \<lparr>res = emit st, tmp = Some [], active = True, match_tok = match_tok st + 1\<rparr>"
      by (simp add: sections_step_def)
    show ?thesis
    proof (cases "\<exists>t. tmp st = Some t \<and> t \<noteq> []")
      case True
      then obtain t where t: "tmp st = Some t" "t \<noteq> []" by blast
      then have "emit st = res st @ [(py_str (match_tok st), t)]" by (simp add: emit_def)
      with assms(1) t have "sec_inv st' (ks @ [match_tok st])"
        unfolding st' sec_inv_def by (auto simp: sorted_wrt_append)
      then show ?thesis ..
    next
      case False
      then have "emit st = res st" by (auto simp: emit_def split: option.splits)
      with assms(1) have "sec_inv st' ks"
        unfolding st' sec_inv_def by auto
      then show ?thesis ..
    qed
  qed
qed

lemma sec_inv_loop:
  "sec_inv st ks \<Longrightarrow> sections_loop tb st lines = Inr st' \<Longrightarrow> \<exists>ks'. sec_inv st' ks'"
proof (induction lines arbitrary: st ks)
  case Nil
  then show ?case by auto
next
  case (Cons l lines)
  then obtain st1 where 1: "sections_step tb st l = Inr st1" and 2: "sections_loop tb st1 lines = Inr st'"
    by (auto split: sum.splits)
  from sec_inv_step [OF Cons.prems(1) 1] obtain ks1 where "sec_inv st1 ks1" ..
  from Cons.IH [OF this 2] show ?case .
qed

lemma sorted_distinct_ids:
  assumes "sorted_wrt (<) ks" and "\<forall>k\<in>set ks. 1 \<le> (k::int)"
  shows "distinct (map py_str ks)"
proof -
  have "distinct ks" using assms(1) by (simp add: strict_sorted_iff)
  moreover have "inj_on py_str (set ks)"
    using assms(2) by (intro inj_onI py_str_inj_nonneg) auto
  ultimately show ?thesis by (simp add: distinct_map)
qed

text \<open>
  C6, as stated: the ids emitted are 1, 2, ..., n in this order. On the lines
  \<^verbatim>\<open>["1\n", "2\n", "x\n", "3\n"]\<close> the only id emitted is \<^verbatim>\<open>"2"\<close>: the marker
  2 is accepted while the buffer of section 1 is empty, and \<^verbatim>\<open>if tmp:\<close> skips it.
\<close>

theorem section_ids_contiguous_counterexample:
  "split_into_sections ascii_tables [ln ''1'', ln ''2'', ln ''x'', ln ''3'']
     = Inr [(asc ''2'', [ln ''x''])]
   \<and> (\<forall>n. map fst [(asc ''2'', [ln ''x''])] \<noteq> map py_str [1..n])"
proof -
  have "map py_str [1..n] \<noteq> [asc ''2'']" for n
  proof
    assume eq: "map py_str [1..n] = [asc ''2'']"
    then have "length [1..n] = 1" by (metis length_map length_Cons list.size(3) One_nat_def)
    then have "n = 1" by simp
    with eq show False by (simp add: sections_eval)
  qed
  then show ?thesis by (simp add: ln_def sections_eval ascii_tables_def) metis
qed

text \<open>
  C6, amended. After any lines read without error: the ids emitted so far are the
  decimal strings of strictly increasing integers, each at least 1 and below the
  marker counter, so no id is emitted twice (they need not be contiguous nor start at
  1: a section with no lines is not emitted); and a line that is numeric and whose
  integer value is not the counter plus one is appended to the buffer when a section
  is open, and changes nothing otherwise.
\<close>

theorem section_ids_increasing:
  assumes "sections_loop tb sec_init pre = Inr st"
  shows "(\<exists>ks. map fst (res st) = map py_str ks \<and> sorted_wrt (<) ks
              \<and> (\<forall>k\<in>set ks. 1 \<le> k \<and> k < match_tok st))
       \<and> distinct (map fst (res st))
       \<and> (\<forall>line v. py_isnumeric tb (py_strip tb line) \<longrightarrow> py_int tb line = Some v
             \<longrightarrow> v \<noteq> match_tok st + 1
             \<longrightarrow> sections_step tb st line
                   = Inr (if active st then st\<lparr>tmp := map_option (\<lambda>t. t @ [line]) (tmp st)\<rparr>
                          else st))"
proof -
  from sec_inv_loop [OF sec_inv_init assms] obtain ks where inv: "sec_inv st ks" ..
  then have ids: "map fst (res st) = map py_str ks" "sorted_wrt (<) ks"
    "\<forall>k\<in>set ks. 1 \<le> k \<and> k < match_tok st"
    by (simp_all add: sec_inv_def)
  have act: "active st \<longleftrightarrow> tmp st \<noteq> None" using inv by (simp add: sec_inv_def)
  have "distinct (map fst (res st))"
    using sorted_distinct_ids [of ks] ids by simp
  moreover have "sections_step tb st line
      = Inr (if active st then st\<lparr>tmp := map_option (\<lambda>t. t @ [line]) (tmp st)\<rparr> else st)"
    if "py_isnumeric tb (py_strip tb line)" "py_int tb line = Some v" "v \<noteq> match_tok st + 1"
    for line v
    using that act by (auto simp: sections_step_def is_marker_def split: option.splits)
  ultimately show ?thesis using ids by blast
qed

theorem section_ids_increasing_witness:
  "sections_loop ascii_tables sec_init [ln ''1'', ln ''a'', ln ''2'', ln ''b'', ln ''3'']
     = Inr \<lparr>res = [(asc ''1'', [ln ''a'']), (asc ''2'', [ln ''b''])], tmp = Some [],
            active = True, match_tok = 3\<rparr>
   \<and> distinct [asc ''1'', asc ''2'']
   \<and> py_isnumeric ascii_tables (py_strip ascii_tables (ln ''7''))
   \<and> py_int ascii_tables (ln ''7'') = Some 7
   \<and> sections_step ascii_tables
         \<lparr>res = [(asc ''1'', [ln ''a'']), (asc ''2'', [ln ''b''])], tmp = Some [],
            active = True, match_tok = 3\<rparr> (ln ''7'')
       = Inr \<lparr>res = [(asc ''1'', [ln ''a'']), (asc ''2'', [ln ''b''])], tmp = Some [ln ''7''],
              active = True, match_tok = 3\<rparr>"
proof -
  let ?st = "\<lparr>res = [(asc ''1'', [ln ''a'']), (asc ''2'', [ln ''b''])], tmp = Some [],
              active = True, match_tok = 3\<rparr>"
  have 1: "sections_loop ascii_tables sec_init [ln ''1'', ln ''a'', ln ''2'', ln ''b'', ln ''3'']
             = Inr ?st"
    by (simp add: ln_def sections_eval)
  have 2: "py_isnumeric ascii_tables (py_strip ascii_tables (ln ''7''))"
    by (simp add: ln_def sections_eval ascii_tables_def)
  have 3: "py_int ascii_tables (ln ''7'') = Some 7"
    by (simp add: ln_def sections_eval ascii_tables_def)
  from section_ids_increasing [OF 1] have
    d: "distinct (map fst (res ?st))" and
    s: "\<And>line v. py_isnumeric ascii_tables (py_strip ascii_tables line) \<Longrightarrow>
          py_int ascii_tables line = Some v \<Longrightarrow> v \<noteq> match_tok ?st + 1 \<Longrightarrow>
          sections_step ascii_tables ?st line
            = Inr (if active ?st then ?st\<lparr>tmp := map_option (\<lambda>t. t @ [line]) (tmp ?st)\<rparr>
                   else ?st)"
    by blast+
  from s [OF 2 3] d 1 2 3 show ?thesis by simp
qed


section \<open>The balanced splitter: what it returns\<close>

text \<open>
  C5, as stated: beyond two parts, the left half is made of the parts strictly before
  the index that precedes the stop index. On \<^verbatim>\<open>"a\nb\nc\nd"\<close> split at newlines,
  with one token per character, the scan stops at index 2 and the halves are
  \<^verbatim>\<open>"a\nb"\<close> and \<^verbatim>\<open>"c\nd"\<close>: the left half has the parts before index 2, not
  the parts before index 1.
\<close>

theorem halved_left_before_previous_index_counterexample:
  "first_stop char_encoding [10] (py_split [10] abcd)
     (int (num_tokens char_encoding abcd div 2)) 2
   \<and> halved_by_delimiter char_encoding abcd [10] = Inr (ln ''a'' @ asc ''b'', ln ''c'' @ asc ''d'')
   \<and> halved_by_delimiter char_encoding abcd [10]
       \<noteq> Inr (py_join [10] (take (2 - 1) (py_split [10] abcd)),
              py_join [10] (drop (2 - 1) (py_split [10] abcd)))"
  by (simp add: abcd_def chunk_eval upt_rec best_so_far_pred)

text \<open>
  C5, amended. For a non-empty delimiter: when splitting gives one part the result is
  the string and the empty string; when it gives two parts the result is these two
  parts; otherwise the scan stops at the first index \<open>i\<close> whose difference is greater
  than or equal to the best difference so far, the left half is the parts strictly
  before \<open>i\<close> joined by the delimiter and the right half is the parts from \<open>i\<close> on
  joined by the delimiter.
\<close>

theorem halved_by_delimiter_cases:
  assumes "d \<noteq> []"
  shows "(length (py_split d s) = 1 \<longrightarrow> halved_by_delimiter gpt s d = Inr (s, []))
       \<and> (length (py_split d s) = 2 \<longrightarrow>
            halved_by_delimiter gpt s d = Inr (py_split d s ! 0, py_split d s ! 1))
       \<and> (2 < length (py_split d s) \<longrightarrow>
            (\<exists>i. first_stop gpt d (py_split d s) (int (num_tokens gpt s div 2)) i
                \<and> halved_by_delimiter gpt s d
                    = Inr (py_join d (take i (py_split d s)), py_join d (drop i (py_split d s)))))"
proof -
  have "\<exists>i. first_stop gpt d (py_split d s) (int (num_tokens gpt s div 2)) i
          \<and> halved_by_delimiter gpt s d
              = Inr (py_join d (take i (py_split d s)), py_join d (drop i (py_split d s)))"
    if "2 < length (py_split d s)"
    using that assms scan_from_start [OF assms, of gpt s]
    by (auto simp: halved_by_delimiter_def Let_def)
  then show ?thesis using assms by (simp add: halved_by_delimiter_def Let_def)
qed

theorem halved_by_delimiter_cases_witness:
  "[10::nat] \<noteq> []
   \<and> length (py_split [10] (asc ''abc'')) = 1
   \<and> halved_by_delimiter char_encoding (asc ''abc'') [10] = Inr (asc ''abc'', [])
   \<and> length (py_split [10] (ln ''a'' @ asc ''b'')) = 2
   \<and> halved_by_delimiter char_encoding (ln ''a'' @ asc ''b'') [10] = Inr (asc ''a'', asc ''b'')
   \<and> 2 < length (py_split [10] abcd)
   \<and> (\<exists>i. first_stop char_encoding [10] (py_split [10] abcd)
              (int (num_tokens char_encoding abcd div 2)) i
          \<and> halved_by_delimiter char_encoding abcd [10]
              = Inr (py_join [10] (take i (py_split [10] abcd)),
                     py_join [10] (drop i (py_split [10] abcd))))"
proof -
  have d: "[10::nat] \<noteq> []" by simp
  have 1: "length (py_split [10] (asc ''abc'')) = 1" by (simp add: chunk_eval)
  have 2: "length (py_split [10] (ln ''a'' @ asc ''b'')) = 2" by (simp add: chunk_eval)
  have 22: "py_split [10] (ln ''a'' @ asc ''b'') = [asc ''a'', asc ''b'']" by (simp add: chunk_eval)
  have 3: "2 < length (py_split [10] abcd)" by (simp add: abcd_def chunk_eval)
  from halved_by_delimiter_cases [OF d, of "asc ''abc''" char_encoding] 1
  have a: "halved_by_delimiter char_encoding (asc ''abc'') [10] = Inr (asc ''abc'', [])" by blast
  from halved_by_delimiter_cases [OF d, of "ln ''a'' @ asc ''b''" char_encoding] 2
  have "halved_by_delimiter char_encoding (ln ''a'' @ asc ''b'') [10]
          = Inr (py_split [10] (ln ''a'' @ asc ''b'') ! 0, py_split [10] (ln ''a'' @ asc ''b'') ! 1)"
    by blast
  then have b: "halved_by_delimiter char_encoding (ln ''a'' @ asc ''b'') [10] = Inr (asc ''a'', asc ''b'')"
    by (simp add: 22)
  from halved_by_delimiter_cases [OF d, of abcd char_encoding] 3
  have c: "\<exists>i. first_stop char_encoding [10] (py_split [10] abcd)
              (int (num_tokens char_encoding abcd div 2)) i
          \<and> halved_by_delimiter char_encoding abcd [10]
              = Inr (py_join [10] (take i (py_split [10] abcd)),
                     py_join [10] (drop i (py_split [10] abcd)))" by blast
  from d 1 a 2 b 3 c show ?thesis by blast
qed

text \<open>
  C9. When the delimiter occurs in the string, \<^verbatim>\<open>halved_by_delimiter\<close> returns two
  halves \<open>l\<close> and \<open>r\<close> with \<open>l @ d @ r = s\<close>, except when there are more than two
  parts and the scan stops at the first prefix: then \<open>l\<close> is empty and \<open>r\<close> is the
  whole string.
\<close>

theorem halved_keeps_the_text:
  assumes "d \<noteq> []" and "sublist d s"
  shows "\<exists>l r. halved_by_delimiter gpt s d = Inr (l, r)
           \<and> (if 2 < length (py_split d s)
                   \<and> first_stop gpt d (py_split d s) (int (num_tokens gpt s div 2)) 0
               then l = [] \<and> r = s
               else l @ d @ r = s)"
proof -
  from halved_total [OF assms(1)] obtain l r where lr: "halved_by_delimiter gpt s d = Inr (l, r)"
    by blast
  from halved_cases [OF assms(1) lr] assms(2) lr show ?thesis by auto
qed

theorem halved_keeps_the_text_witness:
  "[10::nat] \<noteq> [] \<and> sublist [10] abcd \<and> sublist [10] nab
   \<and> halved_by_delimiter char_encoding abcd [10] = Inr (ln ''a'' @ asc ''b'', ln ''c'' @ asc ''d'')
   \<and> (ln ''a'' @ asc ''b'') @ [10] @ (ln ''c'' @ asc ''d'') = abcd
   \<and> halved_by_delimiter char_encoding nab [10] = Inr ([], nab)"
proof -
  have d: "[10::nat] \<noteq> []" by simp
  have "abcd = asc ''a'' @ [10] @ (ln ''b'' @ ln ''c'' @ asc ''d'')"
    by (simp add: abcd_def ln_def)
  then have s1: "sublist [10] abcd" unfolding sublist_def by blast
  have "nab = [] @ [10] @ (ln ''a'' @ asc ''b'')"
    by (simp add: nab_def)
  then have s2: "sublist [10] nab" unfolding sublist_def by blast
  have e1: "halved_by_delimiter char_encoding abcd [10] = Inr (ln ''a'' @ asc ''b'', ln ''c'' @ asc ''d'')"
    by (simp add: abcd_def chunk_eval)
  have c1: "\<not> first_stop char_encoding [10] (py_split [10] abcd)
               (int (num_tokens char_encoding abcd div 2)) 0"
    by (simp add: abcd_def chunk_eval)
  have c2: "2 < length (py_split [10] nab)
            \<and> first_stop char_encoding [10] (py_split [10] nab)
               (int (num_tokens char_encoding nab div 2)) 0"
    by (simp add: nab_def chunk_eval)
  from halved_keeps_the_text [OF d s1, of char_encoding] e1 c1
  have r1: "(ln ''a'' @ asc ''b'') @ [10] @ (ln ''c'' @ asc ''d'') = abcd" by auto
  from halved_keeps_the_text [OF d s2, of char_encoding] c2
  have r2: "halved_by_delimiter char_encoding nab [10] = Inr ([], nab)" by auto
  from d s1 s2 e1 r1 r2 show ?thesis by blast
qed

section \<open>The recursive chunker: termination\<close>

text \<open>
  C10. \<^verbatim>\<open>split_strings_from_subsection\<close> is a total function (its recursion was
  shown to end above), it returns a list and never an error, the list has at least one
  string, and for \<^verbatim>\<open>max_recursion >= 0\<close> it has at most \<open>2 ^ max_recursion\<close>
  strings, the depth argument going down by one at each recursive call.
\<close>

theorem split_strings_returns_nonempty:
  "\<exists>strings. split_strings_from_subsection gpt enc (titles, text) max_tokens max_recursion
       = Inr strings \<and> strings \<noteq> []
     \<and> (0 \<le> max_recursion \<longrightarrow> length strings \<le> 2 ^ nat max_recursion)"
  by (rule split_strings_total)

theorem split_strings_returns_nonempty_witness:
  "(0::int) \<le> 5
   \<and> (\<exists>strings. split_strings_from_subsection char_encoding char_encoding ([], abcd) 3 5
          = Inr strings \<and> strings \<noteq> [] \<and> length strings \<le> 2 ^ nat 5)
   \<and> split_strings_from_subsection char_encoding char_encoding ([], abcd) 3 5
       = Inr [ln ''a'' @ asc ''b'', ln ''c'' @ asc ''d'']"
proof -
  have run: "split_strings_from_subsection char_encoding char_encoding ([], abcd) 3 5
       = Inr [ln ''a'' @ asc ''b'', ln ''c'' @ asc ''d'']"
    by (simp add: abcd_def chunk_eval split_strings_from_subsection.simps delimiters_def)
  have "\<exists>strings. split_strings_from_subsection char_encoding char_encoding ([], abcd) 3 5
          = Inr strings \<and> strings \<noteq> [] \<and> length strings \<le> 2 ^ nat 5"
    using split_strings_returns_nonempty [of char_encoding char_encoding "[]" abcd 3 5] by simp
  with run show ?thesis by simp
qed

section \<open>The recursive chunker: the chunks\<close>

lemma truncation_reached_fits:
  "int (num_tokens gpt (py_join [10, 10] (titles @ [txt]))) \<le> max_tokens \<Longrightarrow>
   \<not> truncation_reached gpt (titles, txt) max_tokens max_recursion"
  by (subst truncation_reached.simps) simp

lemma truncation_reached_floor:
  "\<not> int (num_tokens gpt (py_join [10, 10] (titles @ [txt]))) \<le> max_tokens \<Longrightarrow>
   truncation_reached gpt (titles, txt) max_tokens 0"
  by (subst truncation_reached.simps) simp

lemma truncation_reached_no_split:
  "\<not> int (num_tokens gpt (py_join [10, 10] (titles @ [txt]))) \<le> max_tokens \<Longrightarrow>
   find_split gpt txt delimiters = Inr None \<Longrightarrow>
   truncation_reached gpt (titles, txt) max_tokens max_recursion"
  by (subst truncation_reached.simps) simp

lemma truncation_reached_rec:
  "\<not> int (num_tokens gpt (py_join [10, 10] (titles @ [txt]))) \<le> max_tokens \<Longrightarrow>
   max_recursion \<noteq> 0 \<Longrightarrow>
   find_split gpt txt delimiters = Inr (Some (left, right)) \<Longrightarrow>
   truncation_reached gpt (titles, txt) max_tokens max_recursion
     = (truncation_reached gpt (titles, left) max_tokens (max_recursion - 1)
        \<or> truncation_reached gpt (titles, right) max_tokens (max_recursion - 1))"
  by (subst truncation_reached.simps) simp

lemma title_prefix_join: "py_join [10, 10] (titles @ [p]) = title_prefix titles @ p"
  by (cases "titles = []") (simp_all add: title_prefix_def py_join_append)

lemma weave_append:
  "length ps = length ds + 1 \<Longrightarrow> weave (ps @ qs) (ds @ d # es) = weave ps ds @ d @ weave qs es"
proof (induction ps ds rule: weave.induct)
  case (1 seps)
  then show ?case by simp
next
  case (2 p ps)
  then show ?case by simp
next
  case (3 p ps d' seps)
  then show ?case by simp
qed

text \<open>
  C8. When no call returns a truncated string (in particular when no call reaches
  \<^verbatim>\<open>max_recursion == 0\<close> with a string that does not fit), the function returns
  strings that all start with the title prefix; with this prefix dropped from each and
  the delimiter consumed at each split put back between them, a delimiter of the list
  each time, they give the body text.
\<close>

theorem chunks_reconstruct_body:
  assumes "\<not> truncation_reached gpt (titles, text) max_tokens max_recursion"
  shows "\<exists>strings seps.
           split_strings_from_subsection gpt enc (titles, text) max_tokens max_recursion
             = Inr strings
           \<and> length strings = length seps + 1
           \<and> set seps \<subseteq> set delimiters
           \<and> list_all (prefix (title_prefix titles)) strings
           \<and> weave (map (drop (length (title_prefix titles))) strings) seps = text"
  using assms
proof (induction "length text" arbitrary: "text" max_recursion rule: less_induct)
  case less
  let ?tp = "title_prefix titles"
  show ?case
  proof (cases rule: split_strings_cases [of gpt titles "text" max_tokens _ max_recursion])
    case fits
    then have "split_strings_from_subsection gpt enc (titles, text) max_tokens max_recursion
                 = Inr [?tp @ text]"
      by (simp add: split_strings_fits title_prefix_join)
    then have "split_strings_from_subsection gpt enc (titles, text) max_tokens max_recursion
                 = Inr [?tp @ text]
       \<and> length [?tp @ text] = length ([]::pstr list) + 1
       \<and> set ([]::pstr list) \<subseteq> set delimiters
       \<and> list_all (prefix ?tp) [?tp @ text]
       \<and> weave (map (drop (length ?tp)) [?tp @ text]) [] = text"
      by simp
    then show ?thesis by blast
  next
    case floor
    with less.prems show ?thesis by (simp add: truncation_reached_floor)
  next
    case no_split
    with less.prems show ?thesis by (simp add: truncation_reached_no_split)
  next
    case (rec left right d)
    then have len: "length left < length text" "length right < length text" by auto
    from less.prems rec(1-3) have
      nl: "\<not> truncation_reached gpt (titles, left) max_tokens (max_recursion - 1)" and
      nr: "\<not> truncation_reached gpt (titles, right) max_tokens (max_recursion - 1)"
      by (simp_all add: truncation_reached_rec)
    from less.hyps [OF len(1) nl] obtain ls ds where
      ls: "split_strings_from_subsection gpt enc (titles, left) max_tokens (max_recursion - 1) = Inr ls"
        "length ls = length ds + 1" "set ds \<subseteq> set delimiters" "list_all (prefix ?tp) ls"
        "weave (map (drop (length ?tp)) ls) ds = left"
      by blast
    from less.hyps [OF len(2) nr] obtain rs es where
      rs: "split_strings_from_subsection gpt enc (titles, right) max_tokens (max_recursion - 1) = Inr rs"
        "length rs = length es + 1" "set es \<subseteq> set delimiters" "list_all (prefix ?tp) rs"
        "weave (map (drop (length ?tp)) rs) es = right"
      by blast
    have eq: "split_strings_from_subsection gpt enc (titles, text) max_tokens max_recursion
                = Inr (ls @ rs)"
      using rec(1-3) ls(1) rs(1) by (simp add: split_strings_rec)
    have "weave (map (drop (length ?tp)) (ls @ rs)) (ds @ d # es) = left @ d @ right"
      using ls(2,5) rs(5) by (simp add: weave_append)
    with rec(5) have w: "weave (map (drop (length ?tp)) (ls @ rs)) (ds @ d # es) = text" by simp
    have "split_strings_from_subsection gpt enc (titles, text) max_tokens max_recursion
                = Inr (ls @ rs)
       \<and> length (ls @ rs) = length (ds @ d # es) + 1
       \<and> set (ds @ d # es) \<subseteq> set delimiters
       \<and> list_all (prefix ?tp) (ls @ rs)
       \<and> weave (map (drop (length ?tp)) (ls @ rs)) (ds @ d # es) = text"
      using eq ls(2-4) rs(2-4) rec(4) w by simp
    then show ?thesis by blast
  qed
qed

theorem chunks_reconstruct_body_witness:
  "\<not> truncation_reached char_encoding (titled, abcd) 6 5
   \<and> split_strings_from_subsection char_encoding char_encoding (titled, abcd) 6 5
       = Inr [asc ''T'' @ [10, 10] @ ln ''a'' @ asc ''b'', asc ''T'' @ [10, 10] @ ln ''c'' @ asc ''d'']
   \<and> title_prefix titled = asc ''T'' @ [10, 10]
   \<and> (\<exists>strings seps.
         split_strings_from_subsection char_encoding char_encoding (titled, abcd) 6 5 = Inr strings
         \<and> length strings = length seps + 1
         \<and> set seps \<subseteq> set delimiters
         \<and> list_all (prefix (title_prefix titled)) strings
         \<and> weave (map (drop (length (title_prefix titled))) strings) seps = abcd)"
proof -
  have nt: "\<not> truncation_reached char_encoding (titled, abcd) 6 5"
    by (simp add: titled_def abcd_def chunk_eval truncation_reached.simps delimiters_def)
  have run: "split_strings_from_subsection char_encoding char_encoding (titled, abcd) 6 5
       = Inr [asc ''T'' @ [10, 10] @ ln ''a'' @ asc ''b'', asc ''T'' @ [10, 10] @ ln ''c'' @ asc ''d'']"
    by (simp add: titled_def abcd_def chunk_eval split_strings_from_subsection.simps delimiters_def)
  have tp: "title_prefix titled = asc ''T'' @ [10, 10]"
    by (simp add: titled_def title_prefix_def)
  from chunks_reconstruct_body [OF nt, of char_encoding] nt run tp show ?thesis by blast
qed



section \<open>The example of the specification\<close>

definition example_lines :: "pstr list" where
  "example_lines =
     [ln ''1'', ln ''<Q> What is 2+2?'', ln ''4'',
      ln ''2'', ln ''<Q> What is the capital of France?'', ln ''Paris'']"

text \<open>
  C2, as stated: on the example lines the section parser would return the two sections
  \<^verbatim>\<open>"1"\<close> and \<^verbatim>\<open>"2"\<close>. It does not, whatever the Unicode tables: no marker
  follows the lines of section 2, so they are never appended to \<^verbatim>\<open>res\<close>.
\<close>

theorem example_two_sections_counterexample:
  "\<forall>tb. split_into_sections tb example_lines \<noteq>
     Inr [(asc ''1'', [ln ''<Q> What is 2+2?'', ln ''4'']),
          (asc ''2'', [ln ''<Q> What is the capital of France?'', ln ''Paris''])]"
  by (simp add: example_lines_def ln_def sections_eval)

text \<open>
  C2, amended: on the example lines the section parser returns exactly one section,
  \<^verbatim>\<open>("1", ["<Q> What is 2+2?\n", "4\n"])\<close>, and the QA pair parser returns for it
  exactly \<^verbatim>\<open>[(["What is 2+2?\n"], "4\n")]\<close>.
\<close>

theorem example_one_section:
  "split_into_sections tb example_lines =
     Inr [(asc ''1'', [ln ''<Q> What is 2+2?'', ln ''4''])]
   \<and> split_into_qa_pairs [(asc ''1'', [ln ''<Q> What is 2+2?'', ln ''4''])] =
       [(asc ''1'', [([ln ''What is 2+2?''], ln ''4'')])]"
  by (simp add: example_lines_def ln_def sections_eval qa_eval)

section \<open>Questions and answers across sections\<close>

text \<open>
  C4. The claim is that each section starts with \<^verbatim>\<open>questions\<close> and \<^verbatim>\<open>ans\<close>
  empty. In the code both are assigned before the loop over the sections, and the flush
  at the end of a section leaves them as they are, unlike the flush at a question line,
  which empties both. Given the two sections of the example, the unit of section 1 is
  therefore emitted a second time, under section 2.
\<close>

theorem qa_unit_repeated_in_next_section:
  "split_into_qa_pairs
     [(asc ''1'', [ln ''<Q> What is 2+2?'', ln ''4'']),
      (asc ''2'', [ln ''<Q> What is the capital of France?'', ln ''Paris''])] =
     [(asc ''1'', [([ln ''What is 2+2?''], ln ''4'')]),
      (asc ''2'', [([ln ''What is 2+2?''], ln ''4''),
                   ([ln ''What is the capital of France?''], ln ''Paris'')])]"
  by (simp add: ln_def qa_eval)

end
